theory Spec2Isabelle
  imports Main "HOL-Library.Sublist"
begin

section \<open>The response chunker of the EVE Frontier bot\<close>

text \<open>
  The only algorithm of the repository is the method \<open>split_response\<close> of
  \<open>EVEFrontierBot\<close> (src/main.py, lines 98 to 118):
  \<^verbatim>\<open>
  def split_response(self, response: str, chunk_size: int = 1990) -> list:
      if len(response) <= chunk_size:
          return [response]
      chunks = []
      current_chunk = ""
      for line in response.split('\n'):
          if len(current_chunk) + len(line) + 1 > chunk_size:
              chunks.append(current_chunk)
              current_chunk = line
          else:
              if current_chunk:
                  current_chunk += '\n'
              current_chunk += line
      if current_chunk:
          chunks.append(current_chunk)
      return chunks
  \<close>
  A Python \<open>str\<close> is modelled as a \<open>string\<close>, one \<open>char\<close> per element of the
  Python string; nothing below depends on the size of the alphabet, only on one
  character being the separator. Python integers are unbounded, so \<open>chunk_size\<close> is
  an \<open>int\<close> and \<open>len\<close> is \<open>int \<circ> length\<close>. No operation of the method can raise on a
  \<open>str\<close> and an \<open>int\<close>, so the result type carries no error.
\<close>

subsection \<open>The string operations the method calls\<close>

text \<open>The separator \<open>'\n'\<close>.\<close>

abbreviation (input) nl :: char where
  "nl \<equiv> CHR 0x0A"

text \<open>
  \<open>s.split('\n')\<close>: the pieces between the separators, in order. There is always at
  least one piece: the empty string gives one empty piece, and a separator at either end
  or two in a row give an empty piece there.
\<close>

fun py_split_nl :: "string \<Rightarrow> string list" where
  "py_split_nl [] = [[]]"
| "py_split_nl (c # cs) =
     (if c = nl then [] # py_split_nl cs
      else (c # hd (py_split_nl cs)) # tl (py_split_nl cs))"

text \<open>\<open>'\n'.join(xs)\<close>, the operation the specification uses to put chunks together.\<close>

fun join_nl :: "string list \<Rightarrow> string" where
  "join_nl [] = []"
| "join_nl [x] = x"
| "join_nl (x # y # ys) = x @ nl # join_nl (y # ys)"

subsection \<open>The method\<close>

text \<open>
  The \<open>for\<close> loop, as a recursion over the remaining lines with the two local variables
  \<open>chunks\<close> and \<open>current_chunk\<close> passed along; it returns their values after the loop.
  The truth value of a Python string is its being non-empty.
\<close>

fun scan_lines :: "int \<Rightarrow> string list \<Rightarrow> string \<Rightarrow> string list \<Rightarrow> string list \<times> string" where
  "scan_lines chunk_size chunks current_chunk [] = (chunks, current_chunk)"
| "scan_lines chunk_size chunks current_chunk (line # rest) =
     (if int (length current_chunk) + int (length line) + 1 > chunk_size
      then scan_lines chunk_size (chunks @ [current_chunk]) line rest
      else scan_lines chunk_size chunks
             ((if current_chunk \<noteq> [] then current_chunk @ [nl] else current_chunk) @ line)
             rest)"

definition split_response :: "string \<Rightarrow> int \<Rightarrow> string list" where
  "split_response response chunk_size =
     (if int (length response) \<le> chunk_size then [response]
      else (case scan_lines chunk_size [] [] (py_split_nl response) of
              (chunks, current_chunk) \<Rightarrow>
                if current_chunk \<noteq> [] then chunks @ [current_chunk] else chunks))"

subsection \<open>The greedy algorithm as the specification words it\<close>

text \<open>
  The specification describes the loop with a size check that counts the separator only
  when the buffer is non-empty: "if appending it (plus one line-separator character, unless
  the buffer is currently empty) would make the buffer's length exceed \<open>chunk_size\<close>, the
  current buffer is sealed as a completed chunk and a new buffer is started containing just
  that line; otherwise the line is appended to the buffer (with a separator if the buffer
  was non-empty). After all lines are consumed, if the buffer is non-empty it is sealed as
  the final chunk." \<open>spec_scan_lines\<close> and \<open>spec_greedy\<close> follow these words, not the
  source.
\<close>

fun spec_scan_lines :: "int \<Rightarrow> string list \<Rightarrow> string \<Rightarrow> string list \<Rightarrow> string list \<times> string" where
  "spec_scan_lines chunk_size chunks buffer [] = (chunks, buffer)"
| "spec_scan_lines chunk_size chunks buffer (line # rest) =
     (if int (length buffer) + int (length line) + (if buffer = [] then 0 else 1) > chunk_size
      then spec_scan_lines chunk_size (chunks @ [buffer]) line rest
      else spec_scan_lines chunk_size chunks
             (if buffer = [] then line else buffer @ [nl] @ line) rest)"

definition spec_greedy :: "string \<Rightarrow> int \<Rightarrow> string list" where
  "spec_greedy text chunk_size =
     (case spec_scan_lines chunk_size [] [] (py_split_nl text) of
        (chunks, buffer) \<Rightarrow> if buffer \<noteq> [] then chunks @ [buffer] else chunks)"

section \<open>Facts about the string operations\<close>

lemma py_split_nl_not_Nil: "py_split_nl s \<noteq> []"
  by (induction s) auto

lemma join_nl_Cons: "xs \<noteq> [] \<Longrightarrow> join_nl (x # xs) = x @ nl # join_nl xs"
  by (cases xs) auto

lemma join_nl_Cons_Cons: "join_nl ((c # x) # xs) = c # join_nl (x # xs)"
  by (cases xs) auto

lemma join_nl_py_split_nl: "join_nl (py_split_nl s) = s"
proof (induction s)
  case Nil
  show ?case by simp
next
  case (Cons c cs)
  obtain l ls where ls: "py_split_nl cs = l # ls"
    using py_split_nl_not_Nil [of cs] by (cases "py_split_nl cs") auto
  show ?case
  proof (cases "c = nl")
    case True
    then show ?thesis using Cons ls by (simp add: join_nl_Cons)
  next
    case False
    then show ?thesis using Cons ls by (simp add: join_nl_Cons_Cons)
  qed
qed

lemma py_split_nl_no_separator: "nl \<notin> set s \<Longrightarrow> py_split_nl s = [s]"
  by (induction s) auto

lemma join_nl_append:
  "xs \<noteq> [] \<Longrightarrow> ys \<noteq> [] \<Longrightarrow> join_nl (xs @ ys) = join_nl xs @ nl # join_nl ys"
proof (induction xs rule: join_nl.induct)
  case 1
  then show ?case by simp
next
  case (2 x)
  then show ?case by (simp add: join_nl_Cons)
next
  case (3 x y ys)
  then show ?case by simp
qed

lemma length_line_le_join: "l \<in> set xs \<Longrightarrow> length l \<le> length (join_nl xs)"
  by (induction xs rule: join_nl.induct) auto

lemma length_line_le: "l \<in> set (py_split_nl s) \<Longrightarrow> length l \<le> length s"
  using length_line_le_join [of l "py_split_nl s"] by (simp add: join_nl_py_split_nl)

lemma length_py_split_nl: "length (py_split_nl s) = Suc (count_list s nl)"
proof (induction s)
  case Nil
  show ?case by simp
next
  case (Cons c cs)
  then show ?case using py_split_nl_not_Nil [of cs] by (cases "py_split_nl cs") auto
qed

lemma all_lines_empty_iff: "(\<forall>l\<in>set (py_split_nl s). l = []) \<longleftrightarrow> set s \<subseteq> {nl}"
  by (induction s) auto

lemma py_split_nl_append:
  "py_split_nl (a @ nl # b) = py_split_nl a @ py_split_nl b"
proof (induction a)
  case Nil
  show ?case by simp
next
  case (Cons c a)
  then show ?case using py_split_nl_not_Nil [of a] by simp
qed

lemma py_split_nl_join_nl:
  "xs \<noteq> [] \<Longrightarrow> py_split_nl (join_nl xs) = concat (map py_split_nl xs)"
  by (induction xs rule: join_nl.induct) (simp_all add: py_split_nl_append)

lemma line_no_separator: "l \<in> set (py_split_nl s) \<Longrightarrow> nl \<notin> set l"
proof (induction s arbitrary: l)
  case Nil
  then show ?case by simp
next
  case (Cons c cs)
  obtain x xs where ps: "py_split_nl cs = x # xs"
    using py_split_nl_not_Nil [of cs] by (cases "py_split_nl cs") auto
  then have "nl \<notin> set x" and "\<forall>y\<in>set xs. nl \<notin> set y" using Cons.IH by auto
  with Cons.prems ps show ?case by (auto split: if_splits)
qed

lemma nonempty_lines_join_nl:
  "filter (\<lambda>l. l \<noteq> []) (py_split_nl (join_nl xs))
   = filter (\<lambda>l. l \<noteq> []) (concat (map py_split_nl xs))"
  by (cases "xs = []") (simp_all add: py_split_nl_join_nl)

lemma scan_lines_prefix:
  "scan_lines n chunks cur ls = (chunks', cur') \<Longrightarrow> \<exists>more. chunks' = chunks @ more"
proof (induction ls arbitrary: chunks cur)
  case Nil
  then show ?case by simp
next
  case (Cons l ls)
  show ?case
  proof (cases "int (length cur) + int (length l) + 1 > n")
    case True
    with Cons.prems have "scan_lines n (chunks @ [cur]) l ls = (chunks', cur')" by simp
    from Cons.IH [OF this] show ?thesis by auto
  next
    case False
    with Cons.prems have
      "scan_lines n chunks ((if cur \<noteq> [] then cur @ [nl] else cur) @ l) ls = (chunks', cur')"
      by simp
    from Cons.IH [OF this] show ?thesis .
  qed
qed

lemma scan_lines_length:
  "scan_lines n chunks cur ls = (chunks', cur') \<Longrightarrow> length chunks' \<le> length chunks + length ls"
proof (induction ls arbitrary: chunks cur)
  case Nil
  then show ?case by simp
next
  case (Cons l ls)
  show ?case
  proof (cases "int (length cur) + int (length l) + 1 > n")
    case True
    with Cons.prems have "scan_lines n (chunks @ [cur]) l ls = (chunks', cur')" by simp
    from Cons.IH [OF this] show ?thesis by simp
  next
    case False
    with Cons.prems have
      "scan_lines n chunks ((if cur \<noteq> [] then cur @ [nl] else cur) @ l) ls = (chunks', cur')"
      by simp
    from Cons.IH [OF this] show ?thesis by simp
  qed
qed

section \<open>Invariants of the loop\<close>

text \<open>The size bound: every sealed chunk and the buffer are within the bound or are a line.\<close>

lemma scan_lines_bound:
  assumes "scan_lines n chunks cur ls = (chunks', cur')"
    and "\<forall>c\<in>set chunks. int (length c) \<le> n \<or> c \<in> L"
    and "int (length cur) \<le> n \<or> cur \<in> L"
    and "set ls \<subseteq> L"
  shows "(\<forall>c\<in>set chunks'. int (length c) \<le> n \<or> c \<in> L) \<and> (int (length cur') \<le> n \<or> cur' \<in> L)"
  using assms
proof (induction ls arbitrary: chunks cur)
  case Nil
  then show ?case by simp
next
  case (Cons l ls)
  show ?case
  proof (cases "int (length cur) + int (length l) + 1 > n")
    case True
    with Cons.prems(1) have "scan_lines n (chunks @ [cur]) l ls = (chunks', cur')" by simp
    moreover have "\<forall>c\<in>set (chunks @ [cur]). int (length c) \<le> n \<or> c \<in> L"
      using Cons.prems(2,3) by auto
    moreover have "int (length l) \<le> n \<or> l \<in> L" using Cons.prems(4) by simp
    moreover have "set ls \<subseteq> L" using Cons.prems(4) by simp
    ultimately show ?thesis by (rule Cons.IH)
  next
    case False
    let ?cur = "(if cur \<noteq> [] then cur @ [nl] else cur) @ l"
    from False Cons.prems(1) have "scan_lines n chunks ?cur ls = (chunks', cur')" by simp
    moreover note Cons.prems(2)
    moreover have "int (length ?cur) \<le> n \<or> ?cur \<in> L" using False by simp
    moreover have "set ls \<subseteq> L" using Cons.prems(4) by simp
    ultimately show ?thesis by (rule Cons.IH)
  qed
qed

text \<open>A buffer longer than the bound is sealed by the next line, or is the final buffer.\<close>

lemma scan_lines_overlong_buffer:
  assumes "n < int (length cur)" and "scan_lines n chunks cur ls = (chunks', cur')"
  shows "cur \<in> set chunks' \<or> cur' = cur"
proof (cases ls)
  case Nil
  then show ?thesis using assms(2) by simp
next
  case (Cons l rest)
  with assms have "scan_lines n (chunks @ [cur]) l rest = (chunks', cur')" by simp
  from scan_lines_prefix [OF this] show ?thesis by auto
qed

lemma scan_lines_overlong_line:
  assumes "l \<in> set ls" and "n < int (length l)"
    and "scan_lines n chunks cur ls = (chunks', cur')"
  shows "l \<in> set chunks' \<or> cur' = l"
  using assms
proof (induction ls arbitrary: chunks cur)
  case Nil
  then show ?case by simp
next
  case (Cons x xs)
  show ?case
  proof (cases "l = x")
    case True
    with Cons.prems have "scan_lines n (chunks @ [cur]) l xs = (chunks', cur')" by simp
    with Cons.prems(2) show ?thesis by (rule scan_lines_overlong_buffer)
  next
    case False
    with Cons.prems(1) have mem: "l \<in> set xs" by simp
    show ?thesis
    proof (cases "int (length cur) + int (length x) + 1 > n")
      case True
      with Cons.prems(3) have "scan_lines n (chunks @ [cur]) x xs = (chunks', cur')" by simp
      with mem Cons.prems(2) show ?thesis by (rule Cons.IH)
    next
      case False
      with Cons.prems(3) have
        "scan_lines n chunks ((if cur \<noteq> [] then cur @ [nl] else cur) @ x) xs = (chunks', cur')"
        by simp
      with mem Cons.prems(2) show ?thesis by (rule Cons.IH)
    qed
  qed
qed

text \<open>
  Joining: merging two neighbouring pieces with a separator does not change the joined
  text, so as long as the buffer is non-empty and no line is empty, the sealed chunks and
  the buffer join to what the scanned lines join to.
\<close>

lemma join_nl_merge: "join_nl (xs @ (a @ nl # b) # ys) = join_nl (xs @ a # b # ys)"
proof -
  have head: "join_nl ((a @ nl # b) # ys) = join_nl (a # b # ys)"
    by (cases ys) auto
  show ?thesis
  proof (cases "xs = []")
    case True
    then show ?thesis using head by simp
  next
    case False
    then show ?thesis using head
      by (simp only: join_nl_append [of xs] list.distinct not_False_eq_True)
  qed
qed

lemma scan_lines_join:
  assumes "cur \<noteq> []" and "[] \<notin> set ls"
    and "scan_lines n chunks cur ls = (chunks', cur')"
  shows "cur' \<noteq> [] \<and> join_nl (chunks' @ [cur']) = join_nl (chunks @ cur # ls)"
  using assms
proof (induction ls arbitrary: chunks cur)
  case Nil
  then show ?case by simp
next
  case (Cons l ls)
  from Cons.prems(2) have l: "l \<noteq> []" and ls: "[] \<notin> set ls" by auto
  show ?case
  proof (cases "int (length cur) + int (length l) + 1 > n")
    case True
    with Cons.prems(3) have "scan_lines n (chunks @ [cur]) l ls = (chunks', cur')" by simp
    from Cons.IH [OF l ls this] show ?thesis by simp
  next
    case False
    with Cons.prems(1,3) have r: "scan_lines n chunks (cur @ nl # l) ls = (chunks', cur')"
      by simp
    have "cur @ nl # l \<noteq> []" by simp
    from Cons.IH [OF this ls r] show ?thesis by (simp add: join_nl_merge)
  qed
qed

text \<open>
  Nothing is sealed and the buffer stays empty exactly when every line is empty.
\<close>

lemma scan_lines_Nil_iff:
  assumes "0 < n" and "scan_lines n chunks cur ls = (chunks', cur')"
  shows "chunks' = [] \<and> cur' = [] \<longleftrightarrow> chunks = [] \<and> cur = [] \<and> (\<forall>l\<in>set ls. l = [])"
  using assms(2)
proof (induction ls arbitrary: chunks cur)
  case Nil
  then show ?case by auto
next
  case (Cons l ls)
  show ?case
  proof (cases "int (length cur) + int (length l) + 1 > n")
    case True
    with Cons.prems have "scan_lines n (chunks @ [cur]) l ls = (chunks', cur')" by simp
    from scan_lines_prefix [OF this] have "chunks' \<noteq> []" by auto
    moreover have "\<not> (cur = [] \<and> l = [])" using True assms(1) by auto
    ultimately show ?thesis by auto
  next
    case False
    let ?cur = "(if cur \<noteq> [] then cur @ [nl] else cur) @ l"
    from False Cons.prems have "scan_lines n chunks ?cur ls = (chunks', cur')" by simp
    from Cons.IH [OF this] show ?thesis by auto
  qed
qed

text \<open>
  Contiguous runs: with \<open>pre\<close> the lines already scanned, a non-empty buffer is the
  join of a non-empty run of lines at the end of \<open>pre\<close>, and every non-empty sealed chunk
  is the join of a non-empty run of lines of the text.
\<close>

lemma scan_lines_runs:
  assumes "scan_lines n chunks cur ls = (chunks', cur')"
    and "\<forall>c\<in>set chunks. c \<noteq> [] \<longrightarrow> (\<exists>run. run \<noteq> [] \<and> sublist run (pre @ ls) \<and> c = join_nl run)"
    and "cur \<noteq> [] \<longrightarrow> (\<exists>run. run \<noteq> [] \<and> suffix run pre \<and> cur = join_nl run)"
  shows "(\<forall>c\<in>set chunks'. c \<noteq> [] \<longrightarrow> (\<exists>run. run \<noteq> [] \<and> sublist run (pre @ ls) \<and> c = join_nl run))
       \<and> (cur' \<noteq> [] \<longrightarrow> (\<exists>run. run \<noteq> [] \<and> sublist run (pre @ ls) \<and> cur' = join_nl run))"
  using assms
proof (induction ls arbitrary: chunks cur pre)
  case Nil
  from Nil.prems(3) have "cur \<noteq> [] \<longrightarrow> (\<exists>run. run \<noteq> [] \<and> sublist run pre \<and> cur = join_nl run)"
    by auto
  with Nil.prems(1,2) show ?case by simp
next
  case (Cons l ls)
  have split: "pre @ l # ls = (pre @ [l]) @ ls" by simp
  have old: "\<forall>c\<in>set chunks. c \<noteq> [] \<longrightarrow>
      (\<exists>run. run \<noteq> [] \<and> sublist run ((pre @ [l]) @ ls) \<and> c = join_nl run)"
    using Cons.prems(2) by simp
  have one: "\<exists>run. run \<noteq> [] \<and> suffix run (pre @ [l]) \<and> l = join_nl run"
    by (rule exI [of _ "[l]"]) simp
  show ?case
  proof (cases "int (length cur) + int (length l) + 1 > n")
    case True
    with Cons.prems(1) have r: "scan_lines n (chunks @ [cur]) l ls = (chunks', cur')" by simp
    have "cur \<noteq> [] \<longrightarrow> (\<exists>run. run \<noteq> [] \<and> sublist run ((pre @ [l]) @ ls) \<and> cur = join_nl run)"
    proof
      assume "cur \<noteq> []"
      with Cons.prems(3) obtain run where run: "run \<noteq> []" "suffix run pre" "cur = join_nl run"
        by blast
      from run(2) obtain p where "pre = p @ run" by (auto simp: suffix_def)
      then have "sublist run ((pre @ [l]) @ ls)" by (auto simp: sublist_def)
      with run show "\<exists>run. run \<noteq> [] \<and> sublist run ((pre @ [l]) @ ls) \<and> cur = join_nl run"
        by blast
    qed
    with old have "\<forall>c\<in>set (chunks @ [cur]). c \<noteq> [] \<longrightarrow>
        (\<exists>run. run \<noteq> [] \<and> sublist run ((pre @ [l]) @ ls) \<and> c = join_nl run)"
      by auto
    from Cons.IH [OF r this] one show ?thesis unfolding split by blast
  next
    case False
    show ?thesis
    proof (cases "cur = []")
      case True
      with False Cons.prems(1) have r: "scan_lines n chunks l ls = (chunks', cur')" by simp
      from Cons.IH [OF r old] one show ?thesis unfolding split by blast
    next
      case nonempty: False
      with False Cons.prems(1) have r: "scan_lines n chunks (cur @ nl # l) ls = (chunks', cur')"
        by simp
      from nonempty Cons.prems(3) obtain run where
        run: "run \<noteq> []" "suffix run pre" "cur = join_nl run" by blast
      have "join_nl (run @ [l]) = cur @ nl # l"
        using run(1,3) by (simp add: join_nl_append)
      moreover have "suffix (run @ [l]) (pre @ [l])" using run(2) by simp
      ultimately have "\<exists>run'. run' \<noteq> [] \<and> suffix run' (pre @ [l]) \<and> cur @ nl # l = join_nl run'"
        by (intro exI [of _ "run @ [l]"]) simp
      then have "cur @ nl # l \<noteq> [] \<longrightarrow>
          (\<exists>run'. run' \<noteq> [] \<and> suffix run' (pre @ [l]) \<and> cur @ nl # l = join_nl run')" by simp
      from Cons.IH [OF r old this] show ?thesis unfolding split .
    qed
  qed
qed

text \<open>
  While every line is shorter than the bound, the seal test can only hold for a non-empty
  buffer.
\<close>

lemma scan_lines_no_empty_chunk:
  assumes "[] \<notin> set chunks" and "\<forall>l\<in>set ls. int (length l) < n"
    and "scan_lines n chunks cur ls = (chunks', cur')"
  shows "[] \<notin> set chunks'"
  using assms
proof (induction ls arbitrary: chunks cur)
  case Nil
  then show ?case by simp
next
  case (Cons l ls)
  from Cons.prems(2) have l: "int (length l) < n" and ls: "\<forall>l\<in>set ls. int (length l) < n"
    by simp_all
  show ?case
  proof (cases "int (length cur) + int (length l) + 1 > n")
    case True
    with Cons.prems(3) have r: "scan_lines n (chunks @ [cur]) l ls = (chunks', cur')" by simp
    from True l have "cur \<noteq> []" by auto
    with Cons.prems(1) have "[] \<notin> set (chunks @ [cur])" by simp
    from this ls r show ?thesis by (rule Cons.IH)
  next
    case False
    with Cons.prems(3) have
      "scan_lines n chunks ((if cur \<noteq> [] then cur @ [nl] else cur) @ l) ls = (chunks', cur')"
      by simp
    with Cons.prems(1) ls show ?thesis by (rule Cons.IH)
  qed
qed

text \<open>
  Whatever the buffer, the non-empty lines of the sealed chunks and of the buffer are the
  non-empty lines scanned so far, in order.
\<close>

lemma scan_lines_nonempty_lines:
  assumes "\<forall>l\<in>set ls. nl \<notin> set l"
    and "scan_lines n chunks cur ls = (chunks', cur')"
  shows "filter (\<lambda>l. l \<noteq> []) (concat (map py_split_nl chunks') @ py_split_nl cur')
       = filter (\<lambda>l. l \<noteq> []) (concat (map py_split_nl chunks) @ py_split_nl cur)
         @ filter (\<lambda>l. l \<noteq> []) ls"
  using assms
proof (induction ls arbitrary: chunks cur)
  case Nil
  then show ?case by simp
next
  case (Cons l ls)
  from Cons.prems(1) have l: "py_split_nl l = [l]" and ls: "\<forall>l\<in>set ls. nl \<notin> set l"
    by (simp_all add: py_split_nl_no_separator)
  show ?case
  proof (cases "int (length cur) + int (length l) + 1 > n")
    case True
    with Cons.prems(2) have "scan_lines n (chunks @ [cur]) l ls = (chunks', cur')" by simp
    from Cons.IH [OF ls this] l show ?thesis by simp
  next
    case False
    let ?cur = "(if cur \<noteq> [] then cur @ [nl] else cur) @ l"
    from False Cons.prems(2) have "scan_lines n chunks ?cur ls = (chunks', cur')" by simp
    from Cons.IH [OF ls this] l show ?thesis by (simp add: py_split_nl_append)
  qed
qed

text \<open>
  The loop and the loop of the specification can only differ at a line of exactly
  \<open>chunk_size\<close> characters.
\<close>

lemma scan_lines_eq_spec_scan_lines:
  "\<forall>l\<in>set ls. int (length l) \<noteq> n \<Longrightarrow>
   scan_lines n chunks cur ls = spec_scan_lines n chunks cur ls"
  by (induction ls arbitrary: chunks cur) auto

lemma split_response_eq_spec_greedy:
  assumes "n < int (length response)"
    and "\<forall>l\<in>set (py_split_nl response). int (length l) \<noteq> n"
  shows "split_response response n = spec_greedy response n"
  using assms by (simp add: split_response_def spec_greedy_def scan_lines_eq_spec_scan_lines)

section \<open>The claims\<close>

subsection \<open>The fast path\<close>

text \<open>
  C3. For every text and every positive \<open>chunk_size\<close> with \<open>len(text) <= chunk_size\<close>,
  \<open>split_response\<close> returns exactly the one-element list holding the text unchanged; in
  particular the empty text with the default bound 1990 gives the list holding the empty
  string.
\<close>

theorem fast_path:
  "(0 < n \<and> int (length response) \<le> n \<longrightarrow> split_response response n = [response])
   \<and> split_response [] 1990 = [[]]"
  by (simp add: split_response_def)

text \<open>The second concrete scenario of the specification, \<open>"hello"\<close> with the default bound.\<close>

theorem fast_path_witness:
  "0 < (1990::int) \<and> int (length ''hello'') \<le> 1990
   \<and> split_response ''hello'' 1990 = [''hello'']"
  using fast_path [of 1990 "''hello''"] by simp

subsection \<open>Concrete scenarios\<close>

text \<open>
  C8. \<open>split_response("a\nb\nc", 3)\<close> is exactly the two-element list
  \<open>["a\nb", "c"]\<close>.
\<close>

theorem scenario_1:
  "split_response ''a\<newline>b\<newline>c'' 3 = [''a\<newline>b'', ''c'']"
  by (simp add: split_response_def)

text \<open>
  C5 says that 2000 repetitions of \<open>x\<close> with the bound 1990 give the one-element list
  holding that string. The method does not return that: the test of line 107 holds for the
  first line while the buffer is still empty, so line 108 appends the empty buffer to
  \<open>chunks\<close>, and the result has an empty string in front of the line.
\<close>

theorem overlong_single_line_gets_empty_chunk:
  "split_response (replicate 2000 CHR ''x'') 1990 = [[], replicate 2000 CHR ''x'']"
proof -
  have "py_split_nl (replicate 2000 CHR ''x'') = [replicate 2000 CHR ''x'']"
    by (rule py_split_nl_no_separator) simp
  then show ?thesis by (simp add: split_response_def)
qed

subsection \<open>The size bound\<close>

text \<open>
  C2. For every text and every positive \<open>chunk_size\<close>, every returned chunk that is not a
  single line of the text whose own length exceeds \<open>chunk_size\<close> has length at most
  \<open>chunk_size\<close>.
\<close>

theorem chunk_bound:
  assumes "0 < n" and "c \<in> set (split_response response n)"
    and "\<not> (c \<in> set (py_split_nl response) \<and> n < int (length c))"
  shows "int (length c) \<le> n"
proof (cases "int (length response) \<le> n")
  case True
  then show ?thesis using assms(2) by (simp add: split_response_def)
next
  case False
  obtain chunks cur where r: "scan_lines n [] [] (py_split_nl response) = (chunks, cur)"
    by (cases "scan_lines n [] [] (py_split_nl response)")
  have "(\<forall>c\<in>set chunks. int (length c) \<le> n \<or> c \<in> set (py_split_nl response))
      \<and> (int (length cur) \<le> n \<or> cur \<in> set (py_split_nl response))"
    using r by (rule scan_lines_bound) (use assms(1) in auto)
  moreover have "c \<in> set chunks \<or> c = cur"
    using False assms(2) r by (auto simp: split_response_def split: if_splits)
  ultimately show ?thesis using assms(3) by auto
qed

text \<open>The chunk \<open>"a\nb"\<close> of the first scenario is two lines and meets the bound 3.\<close>

theorem chunk_bound_witness:
  "(0::int) < 3 \<and> ''a\<newline>b'' \<in> set (split_response ''a\<newline>b\<newline>c'' 3)
   \<and> \<not> (''a\<newline>b'' \<in> set (py_split_nl ''a\<newline>b\<newline>c'') \<and> 3 < int (length ''a\<newline>b''))
   \<and> int (length ''a\<newline>b'') \<le> 3"
proof -
  have h1: "(0::int) < 3" by simp
  have h2: "''a\<newline>b'' \<in> set (split_response ''a\<newline>b\<newline>c'' 3)"
    by (simp add: split_response_def)
  have h3: "\<not> (''a\<newline>b'' \<in> set (py_split_nl ''a\<newline>b\<newline>c'') \<and> 3 < int (length ''a\<newline>b''))"
    by simp
  from h1 h2 h3 chunk_bound [OF h1 h2 h3] show ?thesis by blast
qed

subsection \<open>Over-long lines\<close>

text \<open>
  C4. For every text and every positive \<open>chunk_size\<close>, every line of the text whose length
  exceeds \<open>chunk_size\<close> is an element of the returned list: it is a chunk of its own,
  unmodified and not split.
\<close>

theorem overlong_line_own_chunk:
  assumes "0 < n" and "l \<in> set (py_split_nl response)" and "n < int (length l)"
  shows "l \<in> set (split_response response n)"
proof -
  have "length l \<le> length response" using assms(2) by (rule length_line_le)
  with assms(3) have slow: "\<not> int (length response) \<le> n" by simp
  obtain chunks cur where r: "scan_lines n [] [] (py_split_nl response) = (chunks, cur)"
    by (cases "scan_lines n [] [] (py_split_nl response)")
  from assms(2,3) r have "l \<in> set chunks \<or> cur = l" by (rule scan_lines_overlong_line)
  moreover have "l \<noteq> []" using assms(1,3) by auto
  ultimately show ?thesis using slow r by (auto simp: split_response_def)
qed

text \<open>The line \<open>"efgh"\<close> between two short lines, with the bound 3.\<close>

theorem overlong_line_own_chunk_witness:
  "(0::int) < 3 \<and> ''efgh'' \<in> set (py_split_nl ''ab\<newline>efgh\<newline>c'') \<and> 3 < int (length ''efgh'')
   \<and> ''efgh'' \<in> set (split_response ''ab\<newline>efgh\<newline>c'' 3)"
proof -
  have h1: "(0::int) < 3" by simp
  have h2: "''efgh'' \<in> set (py_split_nl ''ab\<newline>efgh\<newline>c'')" by simp
  have h3: "3 < int (length ''efgh'')" by simp
  from h1 h2 h3 overlong_line_own_chunk [OF h1 h2 h3] show ?thesis by blast
qed

subsection \<open>Round trip\<close>

text \<open>
  C1 says that joining the returned chunks with the separator gives back the text, for
  every text and every positive \<open>chunk_size\<close>. The method tells an empty buffer from a
  buffer in use by \<open>if current_chunk\<close> (lines 111 and 115), so a buffer that holds an
  empty line counts as no buffer. For \<open>"ab\ncd\n"\<close> and the bound 5 the empty last line
  is the final buffer, which line 115 does not seal: the result is \<open>["ab\ncd"]\<close>.
\<close>

theorem round_trip_counterexample:
  "(0::int) < 5
   \<and> join_nl (split_response ''ab\<newline>cd\<newline>'' 5) \<noteq> ''ab\<newline>cd\<newline>''"
  by (simp add: split_response_def)

text \<open>
  C1, amended. For every text and every positive \<open>chunk_size\<close>, joining the returned
  chunks with the separator, in order, gives back the text up to empty lines: the joined
  text and the text have the same non-empty lines in the same order. The joined text is
  the text exactly when the text fits in \<open>chunk_size\<close>, or when no line of the text is
  empty and the first line is shorter than \<open>chunk_size\<close>.
\<close>

theorem round_trip:
  assumes "0 < n"
  shows "filter (\<lambda>l. l \<noteq> []) (py_split_nl (join_nl (split_response response n)))
         = filter (\<lambda>l. l \<noteq> []) (py_split_nl response)
    \<and> (int (length response) \<le> n
        \<or> ([] \<notin> set (py_split_nl response) \<and> int (length (hd (py_split_nl response))) < n)
       \<longrightarrow> join_nl (split_response response n) = response)"
proof (cases "int (length response) \<le> n")
  case True
  then show ?thesis by (simp add: split_response_def)
next
  case False
  obtain l ls where lines: "py_split_nl response = l # ls"
    using py_split_nl_not_Nil [of response] by (cases "py_split_nl response") auto
  obtain chunks cur where r: "scan_lines n [] [] (py_split_nl response) = (chunks, cur)"
    by (cases "scan_lines n [] [] (py_split_nl response)")
  have res: "split_response response n = (if cur \<noteq> [] then chunks @ [cur] else chunks)"
    using False r by (simp add: split_response_def)
  have "\<forall>l\<in>set (py_split_nl response). nl \<notin> set l" by (simp add: line_no_separator)
  from scan_lines_nonempty_lines [OF this r]
  have "filter (\<lambda>l. l \<noteq> []) (concat (map py_split_nl chunks) @ py_split_nl cur)
      = filter (\<lambda>l. l \<noteq> []) (py_split_nl response)" by simp
  moreover have "filter (\<lambda>l. l \<noteq> []) (concat (map py_split_nl (split_response response n)))
      = filter (\<lambda>l. l \<noteq> []) (concat (map py_split_nl chunks) @ py_split_nl cur)"
    using res by simp
  ultimately have up_to_empty:
    "filter (\<lambda>l. l \<noteq> []) (py_split_nl (join_nl (split_response response n)))
     = filter (\<lambda>l. l \<noteq> []) (py_split_nl response)"
    by (simp only: nonempty_lines_join_nl)
  have exact: "join_nl (split_response response n) = response"
    if "[] \<notin> set (py_split_nl response)" and "int (length (hd (py_split_nl response))) < n"
  proof -
    from that lines have l: "l \<noteq> []" and ls: "[] \<notin> set ls" and fits: "int (length l) < n"
      by auto
    from fits r lines have r': "scan_lines n [] l ls = (chunks, cur)" by simp
    from scan_lines_join [OF l ls r']
    have cur: "cur \<noteq> []" and j: "join_nl (chunks @ [cur]) = join_nl (l # ls)" by simp_all
    from res cur have "split_response response n = chunks @ [cur]" by simp
    with j lines show ?thesis using join_nl_py_split_nl [of response] by simp
  qed
  from up_to_empty exact False show ?thesis by blast
qed

text \<open>Three lines of two characters with the bound 5: two chunks, which join to the text.\<close>

theorem round_trip_witness:
  "(0::int) < 5
   \<and> [] \<notin> set (py_split_nl ''ab\<newline>cd\<newline>ef'')
   \<and> int (length (hd (py_split_nl ''ab\<newline>cd\<newline>ef''))) < 5
   \<and> split_response ''ab\<newline>cd\<newline>ef'' 5 = [''ab\<newline>cd'', ''ef'']
   \<and> join_nl (split_response ''ab\<newline>cd\<newline>ef'' 5) = ''ab\<newline>cd\<newline>ef''"
proof -
  have h1: "(0::int) < 5" by simp
  have h2: "[] \<notin> set (py_split_nl ''ab\<newline>cd\<newline>ef'')
     \<and> int (length (hd (py_split_nl ''ab\<newline>cd\<newline>ef''))) < 5" by simp
  have h3: "split_response ''ab\<newline>cd\<newline>ef'' 5 = [''ab\<newline>cd'', ''ef'']"
    by (simp add: split_response_def)
  from round_trip [OF h1, of "''ab\<newline>cd\<newline>ef''"] h2
  have "join_nl (split_response ''ab\<newline>cd\<newline>ef'' 5) = ''ab\<newline>cd\<newline>ef''"
    by blast
  with h1 h2 h3 show ?thesis by blast
qed

subsection \<open>The shape of the result\<close>

text \<open>
  C6 says that the result has one or more elements, each non-empty but for the empty text,
  and each a contiguous run of lines joined with the separator. The final seal is guarded by
  \<open>if current_chunk\<close> (line 115), so a text of separators only that is longer than the
  bound gives no chunk at all: \<open>"\n\n"\<close> with the bound 1 gives the empty list.
\<close>

theorem chunks_shape_counterexample:
  "(0::int) < 1 \<and> \<not> 1 \<le> length (split_response ''\<newline>\<newline>'' 1)"
  by (simp add: split_response_def)

text \<open>
  C6, amended. For every text and every positive \<open>chunk_size\<close>: the returned list is
  empty exactly when the text is longer than \<open>chunk_size\<close> and consists of separators
  only; every non-empty chunk is a non-empty contiguous run of lines of the text joined
  with the separator; and when the text is non-empty and either fits in \<open>chunk_size\<close> or
  has only lines shorter than \<open>chunk_size\<close>, no chunk is empty.
\<close>

theorem chunks_shape:
  assumes "0 < n"
  shows "(split_response response n = [] \<longleftrightarrow> n < int (length response) \<and> set response \<subseteq> {nl})
    \<and> (\<forall>c\<in>set (split_response response n). c \<noteq> [] \<longrightarrow>
          (\<exists>run. run \<noteq> [] \<and> sublist run (py_split_nl response) \<and> c = join_nl run))
    \<and> (response \<noteq> [] \<and> (int (length response) \<le> n
                           \<or> (\<forall>l\<in>set (py_split_nl response). int (length l) < n))
        \<longrightarrow> [] \<notin> set (split_response response n))"
proof (cases "int (length response) \<le> n")
  case True
  have "\<exists>run. run \<noteq> [] \<and> sublist run (py_split_nl response) \<and> response = join_nl run"
    by (rule exI [of _ "py_split_nl response"])
       (simp add: py_split_nl_not_Nil join_nl_py_split_nl)
  with True show ?thesis by (simp add: split_response_def)
next
  case False
  obtain chunks cur where r: "scan_lines n [] [] (py_split_nl response) = (chunks, cur)"
    by (cases "scan_lines n [] [] (py_split_nl response)")
  have res: "split_response response n = (if cur \<noteq> [] then chunks @ [cur] else chunks)"
    using False r by (simp add: split_response_def)
  have "chunks = [] \<and> cur = [] \<longleftrightarrow> set response \<subseteq> {nl}"
    using scan_lines_Nil_iff [OF assms r] all_lines_empty_iff [of response] by simp
  then have a: "split_response response n = [] \<longleftrightarrow> n < int (length response) \<and> set response \<subseteq> {nl}"
    using False res by auto
  have "(\<forall>c\<in>set chunks. c \<noteq> [] \<longrightarrow>
          (\<exists>run. run \<noteq> [] \<and> sublist run ([] @ py_split_nl response) \<and> c = join_nl run))
      \<and> (cur \<noteq> [] \<longrightarrow>
          (\<exists>run. run \<noteq> [] \<and> sublist run ([] @ py_split_nl response) \<and> cur = join_nl run))"
    using r by (rule scan_lines_runs) simp_all
  then have b: "\<forall>c\<in>set (split_response response n). c \<noteq> [] \<longrightarrow>
          (\<exists>run. run \<noteq> [] \<and> sublist run (py_split_nl response) \<and> c = join_nl run)"
    using res by auto
  have c: "[] \<notin> set (split_response response n)"
    if "\<forall>l\<in>set (py_split_nl response). int (length l) < n"
  proof -
    have "[] \<notin> set ([]::string list)" by simp
    from this that r have "[] \<notin> set chunks" by (rule scan_lines_no_empty_chunk)
    then show ?thesis using res by auto
  qed
  from a b c False show ?thesis by blast
qed

text \<open>The first scenario: two chunks, none empty, the first one the run of the lines a and b.\<close>

theorem chunks_shape_witness:
  "(0::int) < 3
   \<and> split_response ''a\<newline>b\<newline>c'' 3 \<noteq> []
   \<and> (\<exists>run. run \<noteq> [] \<and> sublist run (py_split_nl ''a\<newline>b\<newline>c'') \<and> ''a\<newline>b'' = join_nl run)
   \<and> [] \<notin> set (split_response ''a\<newline>b\<newline>c'' 3)"
proof -
  have h: "(0::int) < 3" by simp
  have mem: "''a\<newline>b'' \<in> set (split_response ''a\<newline>b\<newline>c'' 3)"
    by (simp add: split_response_def)
  have short: "\<forall>l\<in>set (py_split_nl ''a\<newline>b\<newline>c''). int (length l) < 3" by simp
  have long: "(3::int) < int (length ''a\<newline>b\<newline>c'')" by simp
  have notsep: "\<not> set ''a\<newline>b\<newline>c'' \<subseteq> {nl}" by simp
  from chunks_shape [OF h, of "''a\<newline>b\<newline>c''"] mem short long notsep h
  show ?thesis by simp
qed

subsection \<open>Comparison with the algorithm as the specification words it\<close>

text \<open>
  C7 says that for a text longer than \<open>chunk_size\<close> the method returns what the greedy
  algorithm of the specification returns, whose size check counts the separator only when
  the buffer is non-empty. The method counts it always (line 107), so the two differ as soon
  as a line of exactly \<open>chunk_size\<close> characters meets an empty buffer: for
  \<open>"ab\ncd"\<close> and the bound 2 the method seals the empty buffer first.
\<close>

theorem differs_from_spec_greedy:
  "int (length ''ab\<newline>cd'') > 2
   \<and> split_response ''ab\<newline>cd'' 2 = [[], ''ab'', ''cd'']
   \<and> spec_greedy ''ab\<newline>cd'' 2 = [''ab'', ''cd'']"
  by (simp add: split_response_def spec_greedy_def)

subsection \<open>Totality\<close>

text \<open>
  C9. \<open>split_response\<close> returns a list for every text and every \<open>chunk_size\<close>: both
  loops are structural recursions over finite lists (the characters of the text, then its
  lines), and no branch is an error. The loop body runs once per line, the number of lines
  is one more than the number of separators in the text, and the result has at most one
  chunk more than there are lines.
\<close>

theorem split_response_total:
  "\<exists>chunks. split_response response n = chunks
     \<and> length chunks \<le> Suc (length (py_split_nl response))
     \<and> length (py_split_nl response) = Suc (count_list response nl)"
proof -
  obtain chunks cur where r: "scan_lines n [] [] (py_split_nl response) = (chunks, cur)"
    by (cases "scan_lines n [] [] (py_split_nl response)")
  from scan_lines_length [OF r] have "length chunks \<le> length (py_split_nl response)" by simp
  then have "length (split_response response n) \<le> Suc (length (py_split_nl response))"
    using r by (simp add: split_response_def)
  then show ?thesis by (simp add: length_py_split_nl)
qed

subsection \<open>The empty chunk in front of a long first line\<close>

text \<open>
  C10. For every text longer than \<open>chunk_size\<close> whose first line has at least
  \<open>chunk_size\<close> characters, the first element of the returned list is the empty string:
  the test of line 107 counts a separator although the buffer is empty, and line 108 appends
  the empty buffer to \<open>chunks\<close>.
\<close>

theorem empty_first_chunk:
  assumes "n < int (length response)" and "n \<le> int (length (hd (py_split_nl response)))"
  shows "\<exists>rest. split_response response n = [] # rest"
proof -
  obtain l ls where ls: "py_split_nl response = l # ls"
    using py_split_nl_not_Nil [of response] by (cases "py_split_nl response") auto
  obtain chunks cur where r: "scan_lines n [[]] l ls = (chunks, cur)"
    by (cases "scan_lines n [[]] l ls")
  from scan_lines_prefix [OF r] obtain more where "chunks = [[]] @ more" by blast
  then show ?thesis using assms ls r by (simp add: split_response_def)
qed

text \<open>The text \<open>"abc\nd"\<close> with the bound 2.\<close>

theorem empty_first_chunk_witness:
  "(2::int) < int (length ''abc\<newline>d'') \<and> 2 \<le> int (length (hd (py_split_nl ''abc\<newline>d'')))
   \<and> (\<exists>rest. split_response ''abc\<newline>d'' 2 = [] # rest)"
proof -
  have h1: "(2::int) < int (length ''abc\<newline>d'')" by simp
  have h2: "(2::int) \<le> int (length (hd (py_split_nl ''abc\<newline>d'')))" by simp
  from h1 h2 empty_first_chunk [OF h1 h2] show ?thesis by blast
qed

end
